theory Spec2Isabelle
  imports Main "HOL-Library.Word"
begin

section \<open>The process lifecycle of \<^verbatim>\<open>main.go\<close>\<close>

text \<open>
  The program is the single function \<^verbatim>\<open>main\<close>: seven initialisation calls in a fixed
  order, each guarded by \<^verbatim>\<open>if err != nil { fmt.Printf(...); return }\<close>, four
  \<^verbatim>\<open>defer\<close> statements registered after the steps that acquire a resource, a goroutine
  running \<^verbatim>\<open>srv.ListenAndServe\<close>, a blocking receive on the channel \<^verbatim>\<open>quit\<close>, and a
  call of \<^verbatim>\<open>srv.Shutdown\<close> under a context with a timeout.

  Everything outside \<^verbatim>\<open>main\<close> (the init functions, the HTTP server, the operating
  system) is the environment. Its answers are inputs of the model: the error each init
  call returns, and the sequence of things that happen while \<^verbatim>\<open>main\<close> is blocked
  (a signal is delivered, \<^verbatim>\<open>ListenAndServe\<close> returns, \<^verbatim>\<open>Shutdown\<close> returns).
  What the process does is recorded as a trace of events, oldest first.

  The model splits \<^verbatim>\<open>main\<close> at the two places where it blocks: the receive
  \<^verbatim>\<open><-quit\<close> and the call \<^verbatim>\<open>srv.Shutdown(ctx)\<close>. Between two such places \<^verbatim>\<open>main\<close>
  runs without interruption, so outside events are taken one at a time in a state where
  \<^verbatim>\<open>main\<close> is blocked; a listener that fails before \<^verbatim>\<open>main\<close> has reached the receive
  is the event \<open>ListenReturns\<close> arriving first. Signals that arrive before
  \<^verbatim>\<open>signal.Notify\<close> are not modelled, and the init functions and the deferred calls
  are taken to return. Time is the order of events: there is no clock.
\<close>

subsection \<open>Values\<close>

text \<open>
  A Go \<^verbatim>\<open>error\<close> value; \<^verbatim>\<open>nil\<close> is \<open>None\<close> of \<open>error option\<close>. The two sentinels are
  \<^verbatim>\<open>http.ErrServerClosed\<close>, which the goroutine compares against, and
  \<^verbatim>\<open>context.DeadlineExceeded\<close>, which \<^verbatim>\<open>Shutdown\<close> returns when its context expires.
\<close>

datatype error = ErrServerClosed | DeadlineExceeded | Error string

text \<open>The text \<^verbatim>\<open>%v\<close> and \<^verbatim>\<open>%s\<close> print for an error: the result of \<^verbatim>\<open>err.Error()\<close>.\<close>

fun Error_str :: "error \<Rightarrow> string" where
  "Error_str ErrServerClosed = ''http: Server closed''"
| "Error_str DeadlineExceeded = ''context deadline exceeded''"
| "Error_str (Error msg) = msg"

text \<open>\<^verbatim>\<open>syscall.Signal\<close> is an integer; the three signals the source names.\<close>

type_synonym signal = nat

definition SIGINT :: signal where "SIGINT = 2"
definition SIGKILL :: signal where "SIGKILL = 9"
definition SIGTERM :: signal where "SIGTERM = 15"

text \<open>
  \<^verbatim>\<open>time.Duration\<close> is an \<^verbatim>\<open>int64\<close> count of nanoseconds: a 64-bit word, read as a
  signed number by \<open>sint\<close>.
\<close>

type_synonym Duration = "64 word"

definition Second :: Duration where "Second = 1000000000"

text \<open>The seven initialisation steps, in the order \<^verbatim>\<open>main\<close> runs them.\<close>

datatype init_step = Settings | Logger | Mysql | Redis | Mongodb | Snowflake | Validator

definition steps :: "init_step list" where
  "steps = [Settings, Logger, Mysql, Redis, Mongodb, Snowflake, Validator]"

text \<open>The calls that \<^verbatim>\<open>main\<close> defers.\<close>

datatype call = ZapSync | MysqlClose | RedisClose | MongodbClose | Cancel

datatype event =
    Init init_step              \<comment> \<open>the init function of a step is called\<close>
  | Printf string             \<comment> \<open>\<^verbatim>\<open>fmt.Printf\<close>: text on standard output\<close>
  | ZapDebug string
  | ZapInfo string
  | ZapFatal string error     \<comment> \<open>\<^verbatim>\<open>zap.L().Fatal(msg, zap.Error(err))\<close>\<close>
  | LogFatalf string          \<comment> \<open>\<^verbatim>\<open>log.Fatalf\<close>: text on standard error\<close>
  | Run call                  \<comment> \<open>a deferred call is executed\<close>
  | RoutesSetup string        \<comment> \<open>\<^verbatim>\<open>routes.Setup(mode)\<close>\<close>
  | GoListenAndServe int      \<comment> \<open>the goroutine calls \<^verbatim>\<open>srv.ListenAndServe\<close> on the port\<close>
  | SignalNotify "signal list"
  | QuitRecv signal           \<comment> \<open>\<^verbatim>\<open><-quit\<close> yields a value\<close>
  | WithTimeout Duration      \<comment> \<open>\<^verbatim>\<open>context.WithTimeout(context.Background(), d)\<close>\<close>
  | SrvShutdown Duration      \<comment> \<open>\<^verbatim>\<open>srv.Shutdown(ctx)\<close>, \<open>ctx\<close> given by its timeout\<close>

subsection \<open>The environment\<close>

record env =
  init_err :: "init_step \<Rightarrow> error option"\<comment> \<open>what each init call returns\<close>
  conf_mode :: string                    \<comment> \<open>\<^verbatim>\<open>settings.Conf.Mode\<close>\<close>
  conf_port :: int                       \<comment> \<open>\<^verbatim>\<open>settings.Conf.Port\<close>\<close>
  terminates :: "signal \<Rightarrow> bool"        \<comment> \<open>the runtime's default action for a signal
                                             nobody subscribed to: does it end the process\<close>

text \<open>What can happen from outside once the server goroutine is started.\<close>

datatype env_event =
    Deliver signal                  \<comment> \<open>the operating system delivers a signal\<close>
  | ListenReturns "error option"    \<comment> \<open>\<^verbatim>\<open>srv.ListenAndServe()\<close> returns in the goroutine\<close>
  | ShutdownReturns "error option"  \<comment> \<open>\<^verbatim>\<open>srv.Shutdown(ctx)\<close> returns in \<^verbatim>\<open>main\<close>\<close>

subsection \<open>The process state\<close>

datatype phase =
    Waiting          \<comment> \<open>\<^verbatim>\<open>main\<close> is blocked in \<^verbatim>\<open><-quit\<close>\<close>
  | Stopping         \<comment> \<open>\<^verbatim>\<open>main\<close> is inside \<^verbatim>\<open>srv.Shutdown(ctx)\<close>\<close>
  | Exited nat       \<comment> \<open>the process has exited with this status\<close>
  | Killed signal    \<comment> \<open>the process was ended by a signal it does not handle\<close>

record proc =
  phase :: phase
  trace :: "event list"     \<comment> \<open>what the process has done, oldest first\<close>
  defers :: "call list"     \<comment> \<open>the deferred calls of \<^verbatim>\<open>main\<close>, most recent first\<close>
  notify :: "signal list"   \<comment> \<open>the signals \<^verbatim>\<open>signal.Notify\<close> relays to \<^verbatim>\<open>quit\<close>\<close>
  quit :: "signal list"     \<comment> \<open>the buffer of the channel \<^verbatim>\<open>quit\<close>, capacity 1\<close>
  serving :: bool           \<comment> \<open>the goroutine is inside \<^verbatim>\<open>srv.ListenAndServe\<close>\<close>

definition proc0 :: proc where
  "proc0 = \<lparr>phase = Waiting, trace = [], defers = [], notify = [], quit = [], serving = False\<rparr>"

definition emit :: "event \<Rightarrow> proc \<Rightarrow> proc" where
  "emit e p = p\<lparr>trace := trace p @ [e]\<rparr>"

text \<open>\<^verbatim>\<open>defer f()\<close> pushes the call; nothing runs yet.\<close>

definition defer_call :: "call \<Rightarrow> proc \<Rightarrow> proc" where
  "defer_call c p = p\<lparr>defers := c # defers p\<rparr>"

text \<open>
  \<^verbatim>\<open>return\<close> from \<^verbatim>\<open>main\<close> (or reaching its end): the deferred calls run, last
  deferred first, and the process exits with status 0, whatever the goroutine is doing.
\<close>

definition return_main :: "proc \<Rightarrow> proc" where
  "return_main p =
     p\<lparr>trace := trace p @ map Run (defers p), defers := [], phase := Exited 0, serving := False\<rparr>"

text \<open>
  \<^verbatim>\<open>os.Exit(code)\<close>, which \<^verbatim>\<open>log.Fatalf\<close> and \<^verbatim>\<open>zap.L().Fatal\<close> end with: the process
  exits at once and deferred calls do not run.
\<close>

definition os_Exit :: "nat \<Rightarrow> proc \<Rightarrow> proc" where
  "os_Exit code p = p\<lparr>phase := Exited code, serving := False\<rparr>"

definition nl :: string where "nl = [CHR 0x0A]"

subsection \<open>\<^verbatim>\<open>main\<close>, lines 24 to 91: from the start to the blocking receive\<close>

definition main_start :: "env \<Rightarrow> proc" where
  "main_start env =
    (let p = emit (Init Settings) proc0 in
     case init_err env Settings of
       Some err \<Rightarrow> return_main (emit (Printf (''Init settings failed, err:'' @ Error_str err @ nl)) p)
     | None \<Rightarrow>
    (let p = emit (Init Logger) p in
     case init_err env Logger of
       Some err \<Rightarrow> return_main (emit (Printf (''Init logger failed, err:'' @ Error_str err @ nl)) p)
     | None \<Rightarrow>
    (let p = defer_call ZapSync p;
         p = emit (ZapDebug ''logger init success'') p;
         p = emit (Init Mysql) p in
     case init_err env Mysql of
       Some err \<Rightarrow> return_main (emit (Printf (''Init mysql failed, err:'' @ Error_str err @ nl)) p)
     | None \<Rightarrow>
    (let p = defer_call MysqlClose p;
         p = emit (Init Redis) p in
     case init_err env Redis of
       Some err \<Rightarrow> return_main (emit (Printf (''Init redis failed, err:'' @ Error_str err @ nl)) p)
     | None \<Rightarrow>
    (let p = defer_call RedisClose p;
         p = emit (Init Mongodb) p in
     case init_err env Mongodb of
       Some err \<Rightarrow> return_main (emit (Printf (''Init mongodb failed, err:'' @ Error_str err @ nl)) p)
     | None \<Rightarrow>
    (let p = defer_call MongodbClose p;
         p = emit (Init Snowflake) p in
     case init_err env Snowflake of
       Some err \<Rightarrow> return_main (emit (Printf (''Init snowflake failed, err:'' @ Error_str err @ nl)) p)
     | None \<Rightarrow>
    (let p = emit (Init Validator) p in
     case init_err env Validator of
       Some err \<Rightarrow> return_main (emit (Printf (''init validator trans failed, err:'' @ Error_str err @ nl)) p)
     | None \<Rightarrow>
    (let p = emit (RoutesSetup (conf_mode env)) p;
         p = emit (GoListenAndServe (conf_port env)) (p\<lparr>serving := True\<rparr>);
         p = emit (SignalNotify [SIGINT, SIGTERM]) (p\<lparr>quit := [], notify := [SIGINT, SIGTERM]\<rparr>)
     in p\<lparr>phase := Waiting\<rparr>))))))))"

subsection \<open>The goroutine, lines 76 to 81\<close>

definition serve_goroutine :: "error option \<Rightarrow> proc \<Rightarrow> proc" where
  "serve_goroutine r p =
    (case r of
       None \<Rightarrow> p
     | Some err \<Rightarrow>
         if err \<noteq> ErrServerClosed
         then os_Exit 1 (emit (LogFatalf (''listen: '' @ Error_str err @ nl)) p)
         else p)"

subsection \<open>\<^verbatim>\<open>main\<close>, lines 91 to 103: after the receive\<close>

text \<open>From the value read off \<^verbatim>\<open>quit\<close> to the call of \<^verbatim>\<open>srv.Shutdown(ctx)\<close>.\<close>

definition main_after_quit :: "signal \<Rightarrow> proc \<Rightarrow> proc" where
  "main_after_quit s p =
    (let p = emit (QuitRecv s) p;
         p = emit (ZapInfo ''Shutdown Server ...'') p;
         p = emit (WithTimeout (5 * Second)) p;
         p = defer_call Cancel p;
         p = emit (SrvShutdown (5 * Second)) p
     in p\<lparr>phase := Stopping\<rparr>)"

text \<open>From the return of \<^verbatim>\<open>srv.Shutdown(ctx)\<close> to the end of \<^verbatim>\<open>main\<close>.\<close>

definition main_after_shutdown :: "error option \<Rightarrow> proc \<Rightarrow> proc" where
  "main_after_shutdown r p =
    (case r of
       Some err \<Rightarrow> os_Exit 1 (emit (ZapFatal ''Server Shutdown: '' err) p)
     | None \<Rightarrow> return_main (emit (ZapInfo ''Server exiting'') p))"

subsection \<open>Signals and the channel \<^verbatim>\<open>quit\<close>\<close>

text \<open>
  The runtime relays a subscribed signal to \<^verbatim>\<open>quit\<close> without blocking: the value is
  dropped when the buffer (capacity 1) is full. A signal nobody subscribed to gets the
  default action of the environment.
\<close>

definition relay :: "env \<Rightarrow> signal \<Rightarrow> proc \<Rightarrow> proc" where
  "relay env s p =
    (if s \<in> set (notify p)
     then (if length (quit p) < 1 then p\<lparr>quit := quit p @ [s]\<rparr> else p)
     else if terminates env s then p\<lparr>phase := Killed s, serving := False\<rparr> else p)"

text \<open>\<^verbatim>\<open><-quit\<close>: \<^verbatim>\<open>main\<close> stays blocked on an empty channel, and goes on with the first value.\<close>

definition recv_quit :: "proc \<Rightarrow> proc" where
  "recv_quit p =
    (case quit p of
       [] \<Rightarrow> p
     | s # rest \<Rightarrow> main_after_quit s (p\<lparr>quit := rest\<rparr>))"

definition alive :: "proc \<Rightarrow> bool" where
  "alive p = (phase p = Waiting \<or> phase p = Stopping)"

subsection \<open>One thing happens; a sequence of things happens\<close>

text \<open>
  An event that cannot happen in a state (the process is gone, \<^verbatim>\<open>ListenAndServe\<close> has
  already returned, \<^verbatim>\<open>main\<close> is not inside \<^verbatim>\<open>Shutdown\<close>) leaves the state as it is.
\<close>

fun step :: "env \<Rightarrow> env_event \<Rightarrow> proc \<Rightarrow> proc" where
  "step env (Deliver s) p =
    (if alive p
     then (let p = relay env s p in if phase p = Waiting then recv_quit p else p)
     else p)"
| "step env (ListenReturns r) p =
    (if alive p \<and> serving p then serve_goroutine r (p\<lparr>serving := False\<rparr>) else p)"
| "step env (ShutdownReturns r) p =
    (if phase p = Stopping then main_after_shutdown r p else p)"

fun run :: "env \<Rightarrow> env_event list \<Rightarrow> proc \<Rightarrow> proc" where
  "run env [] p = p"
| "run env (e # es) p = run env es (step env e p)"

text \<open>The whole program: \<^verbatim>\<open>main\<close> under an environment and a sequence of outside events.\<close>

definition run_main :: "env \<Rightarrow> env_event list \<Rightarrow> proc" where
  "run_main env es = run env es (main_start env)"

definition exit_status :: "proc \<Rightarrow> nat option" where
  "exit_status p = (case phase p of Exited code \<Rightarrow> Some code | _ \<Rightarrow> None)"

subsection \<open>Reading a trace\<close>

text \<open>The deferred calls a trace executed, in the order they ran.\<close>

fun ran :: "event list \<Rightarrow> call list" where
  "ran [] = []"
| "ran (Run c # es) = c # ran es"
| "ran (_ # es) = ran es"

text \<open>
  The rollback each step registers when its init call succeeds: the \<^verbatim>\<open>defer\<close> that
  follows the step in \<^verbatim>\<open>main\<close>. Three steps register none.
\<close>

fun rollback_of :: "init_step \<Rightarrow> call option" where
  "rollback_of Settings = None"
| "rollback_of Logger = Some ZapSync"
| "rollback_of Mysql = Some MysqlClose"
| "rollback_of Redis = Some RedisClose"
| "rollback_of Mongodb = Some MongodbClose"
| "rollback_of Snowflake = None"
| "rollback_of Validator = None"

text \<open>The rollbacks among the executed deferred calls (\<^verbatim>\<open>cancel\<close> is not one).\<close>

definition rollbacks_run :: "event list \<Rightarrow> call list" where
  "rollbacks_run es = filter (\<lambda>c. c \<noteq> Cancel) (ran es)"

text \<open>The prefix of the diagnostic \<^verbatim>\<open>main\<close> prints when a step fails.\<close>

fun fail_prefix :: "init_step \<Rightarrow> string" where
  "fail_prefix Settings = ''Init settings failed, err:''"
| "fail_prefix Logger = ''Init logger failed, err:''"
| "fail_prefix Mysql = ''Init mysql failed, err:''"
| "fail_prefix Redis = ''Init redis failed, err:''"
| "fail_prefix Mongodb = ''Init mongodb failed, err:''"
| "fail_prefix Snowflake = ''Init snowflake failed, err:''"
| "fail_prefix Validator = ''init validator trans failed, err:''"

definition all_ok :: "env \<Rightarrow> bool" where
  "all_ok env = list_all (\<lambda>s. init_err env s = None) steps"

text \<open>What \<^verbatim>\<open>main\<close> logs right after a step has succeeded, before the next init call.\<close>

fun on_success :: "init_step \<Rightarrow> event list" where
  "on_success Logger = [ZapDebug ''logger init success'']"
| "on_success _ = []"

definition init_calls :: "init_step list \<Rightarrow> event list" where
  "init_calls ss = concat (map (\<lambda>s. Init s # on_success s) ss)"

text \<open>
  The states in which the process is alive: the state \<^verbatim>\<open>main\<close> blocks in, or the state
  after one receive from \<^verbatim>\<open>quit\<close>; only the goroutine's flag and the channel buffer vary.
\<close>

definition live_inv :: "env \<Rightarrow> proc \<Rightarrow> bool" where
  "live_inv env p \<longleftrightarrow>
     all_ok env \<and>
     ((\<exists>sv. p = (main_start env)\<lparr>serving := sv\<rparr>) \<or>
      (\<exists>s sv q. (s = SIGINT \<or> s = SIGTERM) \<and> length q \<le> 1 \<and>
         p = (main_after_quit s (main_start env))\<lparr>serving := sv, quit := q\<rparr>))"

text \<open>
  A sample environment for the concrete instances below: development mode, port 8081,
  a runtime in which exactly \<^verbatim>\<open>SIGKILL\<close> ends a process that has not subscribed to it.
\<close>

definition sample_env :: "(init_step \<Rightarrow> error option) \<Rightarrow> env" where
  "sample_env f =
     \<lparr>init_err = f, conf_mode = ''dev'', conf_port = 8081, terminates = (\<lambda>s. s = SIGKILL)\<rparr>"

text \<open>The lines a trace wrote with \<^verbatim>\<open>fmt.Printf\<close>, in order.\<close>

fun printed :: "event list \<Rightarrow> string list" where
  "printed [] = []"
| "printed (Printf m # es) = m # printed es"
| "printed (_ # es) = printed es"

text \<open>The events that \<^verbatim>\<open>main\<close> and the goroutine produce after the blocking receive is reached.\<close>

fun late :: "event \<Rightarrow> bool" where
  "late (QuitRecv _) = True"
| "late (ZapInfo _) = True"
| "late (WithTimeout _) = True"
| "late (SrvShutdown _) = True"
| "late (ZapFatal _ _) = True"
| "late (LogFatalf _) = True"
| "late (Run _) = True"
| "late _ = False"

text \<open>An environment in which no init call fails.\<close>

definition all_succeed :: "init_step \<Rightarrow> error option" where
  "all_succeed = (\<lambda>_. None)"

text \<open>The trace of \<^verbatim>\<open>main\<close> up to the blocking receive when every step succeeds.\<close>

definition init_trace :: "env \<Rightarrow> event list" where
  "init_trace env = init_calls steps
     @ [RoutesSetup (conf_mode env), GoListenAndServe (conf_port env),
        SignalNotify [SIGINT, SIGTERM]]"

text \<open>What \<^verbatim>\<open>main\<close> does between the receive and the return of \<^verbatim>\<open>srv.Shutdown\<close>.\<close>

definition shutdown_calls :: "signal \<Rightarrow> event list" where
  "shutdown_calls s =
     [QuitRecv s, ZapInfo ''Shutdown Server ...'', WithTimeout (5 * Second),
      SrvShutdown (5 * Second)]"

text \<open>The ways a trace can go on after \<^verbatim>\<open>srv.Shutdown\<close> was called.\<close>

definition shutdown_end :: "event list \<Rightarrow> bool" where
  "shutdown_end fin \<longleftrightarrow>
     fin = [] \<or> (\<exists>m. fin = [LogFatalf m]) \<or> (\<exists>err. fin = [ZapFatal ''Server Shutdown: '' err])
     \<or> fin = ZapInfo ''Server exiting''
              # map Run [Cancel, MongodbClose, RedisClose, MysqlClose, ZapSync]"

text \<open>The ways a trace can go on after the blocking receive was reached.\<close>

definition tail_shape :: "event list \<Rightarrow> bool" where
  "tail_shape rest \<longleftrightarrow>
     rest = [] \<or> (\<exists>m. rest = [LogFatalf m])
     \<or> (\<exists>s fin. (s = SIGINT \<or> s = SIGTERM) \<and> rest = shutdown_calls s @ fin \<and> shutdown_end fin)"

text \<open>The values a trace read off the channel \<^verbatim>\<open>quit\<close>, in order.\<close>

fun received :: "event list \<Rightarrow> signal list" where
  "received [] = []"
| "received (QuitRecv s # es) = s # received es"
| "received (_ # es) = received es"

text \<open>Two states that differ at most in the buffer of \<^verbatim>\<open>quit\<close>.\<close>

definition agree :: "proc \<Rightarrow> proc \<Rightarrow> bool" where
  "agree p p' \<longleftrightarrow> phase p = phase p' \<and> trace p = trace p' \<and> defers p = defers p'
     \<and> notify p = notify p' \<and> serving p = serving p'"

section \<open>The initialisation sequence in closed form\<close>

lemma steps_split:
  assumes "steps = pre @ k # post"
  shows "(pre = [] \<and> k = Settings)
       \<or> (pre = [Settings] \<and> k = Logger)
       \<or> (pre = [Settings, Logger] \<and> k = Mysql)
       \<or> (pre = [Settings, Logger, Mysql] \<and> k = Redis)
       \<or> (pre = [Settings, Logger, Mysql, Redis] \<and> k = Mongodb)
       \<or> (pre = [Settings, Logger, Mysql, Redis, Mongodb] \<and> k = Snowflake)
       \<or> (pre = [Settings, Logger, Mysql, Redis, Mongodb, Snowflake] \<and> k = Validator)"
  using assms by (auto simp: steps_def Cons_eq_append_conv)

text \<open>
  When step \<open>k\<close> is the first to fail, \<^verbatim>\<open>main\<close> has called the init functions up to
  \<open>k\<close>, printed the diagnostic of \<open>k\<close>, and returned through the deferred calls.
\<close>

lemma main_start_failed:
  assumes "steps = pre @ k # post"
    and "\<forall>s\<in>set pre. init_err env s = None"
    and "init_err env k = Some e"
  shows "main_start env =
    \<lparr>phase = Exited 0,
     trace = init_calls pre @ [Init k, Printf (fail_prefix k @ Error_str e @ nl)]
               @ map Run (rev (List.map_filter rollback_of pre)),
     defers = [], notify = [], quit = [], serving = False\<rparr>"
  using steps_split [OF assms(1)] assms(2,3)
  by (elim disjE conjE)
     (simp_all add: main_start_def proc0_def emit_def defer_call_def return_main_def
        init_calls_def List.map_filter_def)

lemma all_ok_iff: "all_ok env \<longleftrightarrow> (\<forall>s. init_err env s = None)"
proof
  assume a: "all_ok env"
  show "\<forall>s. init_err env s = None"
  proof
    fix s
    from a show "init_err env s = None"
      by (cases s) (simp_all add: all_ok_def steps_def)
  qed
next
  assume "\<forall>s. init_err env s = None"
  then show "all_ok env"
    by (simp add: all_ok_def steps_def)
qed

text \<open>When every step succeeds, \<^verbatim>\<open>main\<close> reaches the receive with four calls deferred.\<close>

lemma main_start_ok:
  assumes "all_ok env"
  shows "main_start env =
    \<lparr>phase = Waiting,
     trace = init_calls steps
        @ [RoutesSetup (conf_mode env), GoListenAndServe (conf_port env),
           SignalNotify [SIGINT, SIGTERM]],
     defers = [MongodbClose, RedisClose, MysqlClose, ZapSync],
     notify = [SIGINT, SIGTERM], quit = [], serving = True\<rparr>"
  using assms
  by (simp add: all_ok_def steps_def main_start_def proc0_def emit_def defer_call_def
      init_calls_def)

lemma first_failure:
  assumes "\<not> all_ok env"
  shows "\<exists>pre k post e. steps = pre @ k # post
           \<and> (\<forall>s\<in>set pre. init_err env s = None) \<and> init_err env k = Some e"
proof -
  from assms have "\<exists>x\<in>set steps. init_err env x \<noteq> None"
    by (auto simp: all_ok_def list_all_iff)
  then obtain pre k post where "steps = pre @ k # post" "init_err env k \<noteq> None"
    "\<forall>s\<in>set pre. \<not> init_err env s \<noteq> None"
    using split_list_first_prop [of steps "\<lambda>x. init_err env x \<noteq> None"] by blast
  then show ?thesis by auto
qed

section \<open>Runs\<close>

lemma step_dead: "\<not> alive p \<Longrightarrow> step env e p = p"
  by (cases e) (auto simp: alive_def)

lemma run_dead: "\<not> alive p \<Longrightarrow> run env es p = p"
  by (induction es) (simp_all add: step_dead)

lemma run_append: "run env (xs @ ys) p = run env ys (run env xs p)"
  by (induction xs arbitrary: p) simp_all

lemma run_main_snoc: "run_main env (es @ [e]) = step env e (run_main env es)"
  by (simp add: run_main_def run_append)

lemma run_main_append: "run_main env (xs @ ys) = run env ys (run_main env xs)"
  by (simp add: run_main_def run_append)

lemma main_start_alive: "alive (main_start env) \<Longrightarrow> all_ok env"
proof (rule ccontr)
  assume a: "alive (main_start env)" and "\<not> all_ok env"
  from first_failure [OF this(2)] obtain pre k post e where
    "steps = pre @ k # post" "\<forall>s\<in>set pre. init_err env s = None" "init_err env k = Some e"
    by blast
  from main_start_failed [OF this] a show False
    by (simp add: alive_def)
qed

section \<open>The states of a live process\<close>

lemma live_inv_W: "all_ok env \<Longrightarrow> live_inv env ((main_start env)\<lparr>serving := sv\<rparr>)"
  unfolding live_inv_def by blast

lemma live_inv_S:
  "all_ok env \<Longrightarrow> s = SIGINT \<or> s = SIGTERM \<Longrightarrow> length q \<le> 1 \<Longrightarrow>
   live_inv env ((main_after_quit s (main_start env))\<lparr>serving := sv, quit := q\<rparr>)"
  unfolding live_inv_def by blast

lemma live_inv_start: "alive (main_start env) \<Longrightarrow> live_inv env (main_start env)"
proof -
  assume "alive (main_start env)"
  then have ok: "all_ok env" by (rule main_start_alive)
  have "main_start env = (main_start env)\<lparr>serving := True\<rparr>"
    by (simp add: main_start_ok [OF ok])
  with live_inv_W [OF ok, of True] show ?thesis by simp
qed

lemma alive_step: "alive (step env e p) \<Longrightarrow> alive p"
  by (rule ccontr) (simp add: step_dead)

lemma step_live_W:
  assumes ok: "all_ok env" and p: "p = (main_start env)\<lparr>serving := sv\<rparr>"
    and a: "alive (step env e p)"
  shows "live_inv env (step env e p)"
proof (cases e)
  case (Deliver s)
  show ?thesis
  proof (cases "s = SIGINT \<or> s = SIGTERM")
    case True
    then have "step env e p = (main_after_quit s (main_start env))\<lparr>serving := sv, quit := []\<rparr>"
      using Deliver p
      by (auto simp: main_start_ok [OF ok] alive_def relay_def recv_quit_def
          main_after_quit_def emit_def defer_call_def)
    with live_inv_S [OF ok True, of "[]" sv] show ?thesis by simp
  next
    case False
    then have "step env e p = p \<or> \<not> alive (step env e p)"
      using Deliver p
      by (auto simp: main_start_ok [OF ok] alive_def relay_def recv_quit_def)
    with a have "step env e p = p" by blast
    with live_inv_W [OF ok, of sv] p show ?thesis by simp
  qed
next
  case (ListenReturns r)
  then have "step env e p = (main_start env)\<lparr>serving := False\<rparr> \<or> step env e p = p
      \<or> \<not> alive (step env e p)"
    using p
    by (auto simp: main_start_ok [OF ok] alive_def serve_goroutine_def os_Exit_def emit_def
        split: option.splits)
  with a have "step env e p = (main_start env)\<lparr>serving := False\<rparr> \<or> step env e p = p" by blast
  with live_inv_W [OF ok, of sv] live_inv_W [OF ok, of False] p show ?thesis by auto
next
  case (ShutdownReturns r)
  with p have "step env e p = p"
    by (simp add: main_start_ok [OF ok])
  with live_inv_W [OF ok, of sv] p show ?thesis by simp
qed

lemma step_live_S:
  assumes ok: "all_ok env" and s: "s = SIGINT \<or> s = SIGTERM" and q: "length q \<le> 1"
    and p: "p = (main_after_quit s (main_start env))\<lparr>serving := sv, quit := q\<rparr>"
    and a: "alive (step env e p)"
  shows "live_inv env (step env e p)"
proof (cases e)
  case (Deliver s')
  define q' where "q' = (if (s' = SIGINT \<or> s' = SIGTERM) \<and> q = [] then [s'] else q)"
  have "step env e p = (main_after_quit s (main_start env))\<lparr>serving := sv, quit := q'\<rparr>
      \<or> \<not> alive (step env e p)"
    using Deliver p q unfolding q'_def
    by (cases q)
       (auto simp: main_start_ok [OF ok] main_after_quit_def emit_def defer_call_def
          alive_def relay_def)
  with a have "step env e p = (main_after_quit s (main_start env))\<lparr>serving := sv, quit := q'\<rparr>"
    by blast
  moreover have "length q' \<le> 1" using q by (simp add: q'_def)
  ultimately show ?thesis using live_inv_S [OF ok s, of q' sv] by simp
next
  case (ListenReturns r)
  then have "step env e p = (main_after_quit s (main_start env))\<lparr>serving := False, quit := q\<rparr>
      \<or> step env e p = p \<or> \<not> alive (step env e p)"
    using p
    by (auto simp: main_start_ok [OF ok] main_after_quit_def emit_def defer_call_def
        alive_def serve_goroutine_def os_Exit_def split: option.splits)
  with a have "step env e p = (main_after_quit s (main_start env))\<lparr>serving := False, quit := q\<rparr>
      \<or> step env e p = p" by blast
  with live_inv_S [OF ok s q, of sv] live_inv_S [OF ok s q, of False] p show ?thesis by auto
next
  case (ShutdownReturns r)
  with p have "\<not> alive (step env e p)"
    by (auto simp: main_start_ok [OF ok] main_after_quit_def emit_def defer_call_def
        alive_def main_after_shutdown_def os_Exit_def return_main_def split: option.splits)
  with a show ?thesis by blast
qed

lemma step_live_inv:
  assumes "live_inv env p" and "alive (step env e p)"
  shows "live_inv env (step env e p)"
proof -
  from assms(1) have ok: "all_ok env" by (simp add: live_inv_def)
  from assms(1) consider
    (W) sv where "p = (main_start env)\<lparr>serving := sv\<rparr>"
  | (S) s sv q where "s = SIGINT \<or> s = SIGTERM" "length q \<le> 1"
      "p = (main_after_quit s (main_start env))\<lparr>serving := sv, quit := q\<rparr>"
    unfolding live_inv_def by blast
  then show ?thesis
  proof cases
    case W
    from step_live_W [OF ok W assms(2)] show ?thesis .
  next
    case S
    from step_live_S [OF ok S assms(2)] show ?thesis .
  qed
qed

lemma run_main_live:
  "alive (run_main env es) \<Longrightarrow> live_inv env (run_main env es)"
proof (induction es rule: rev_induct)
  case Nil
  then show ?case by (simp add: run_main_def live_inv_start)
next
  case (snoc e es)
  from snoc.prems have a: "alive (step env e (run_main env es))"
    by (simp add: run_main_snoc)
  then have "alive (run_main env es)" by (rule alive_step)
  then have "live_inv env (run_main env es)" by (rule snoc.IH)
  from step_live_inv [OF this a] show ?case by (simp add: run_main_snoc)
qed

section \<open>Facts about traces\<close>

lemma ran_append: "ran (xs @ ys) = ran xs @ ran ys"
  by (induction xs rule: ran.induct) simp_all

lemma ran_map_Run: "ran (map Run cs) = cs"
  by (induction cs) simp_all

lemma ran_init_calls: "ran (init_calls ss) = []"
proof (induction ss)
  case Nil
  then show ?case by (simp add: init_calls_def)
next
  case (Cons s ss)
  then show ?case by (cases s) (simp_all add: init_calls_def)
qed

lemma set_init_calls_Init: "Init s \<in> set (init_calls ss) \<longleftrightarrow> s \<in> set ss"
proof (induction ss)
  case Nil
  then show ?case by (simp add: init_calls_def)
next
  case (Cons a ss)
  then show ?case by (cases a) (auto simp: init_calls_def)
qed

lemma rollback_of_inj: "rollback_of s = Some c \<Longrightarrow> rollback_of s' = Some c \<Longrightarrow> s = s'"
  by (cases s; cases s') simp_all

lemma set_map_filter_rollback:
  "rollback_of s = Some c \<Longrightarrow> c \<in> set (List.map_filter rollback_of pre) \<longleftrightarrow> s \<in> set pre"
  by (auto simp: List.map_filter_def dest: rollback_of_inj intro: rev_image_eqI)

lemma Run_in_trace: "Run c \<in> set es \<longleftrightarrow> c \<in> set (ran es)"
  by (induction es rule: ran.induct) auto

lemma sample_env_simps:
  "init_err (sample_env f) = f" "conf_mode (sample_env f) = ''dev''"
  "conf_port (sample_env f) = 8081" "terminates (sample_env f) s = (s = SIGKILL)"
  by (simp_all add: sample_env_def)

section \<open>Initialisation failure\<close>

text \<open>
  C1. Let step \<open>k\<close> be the first step whose init call fails: the steps \<open>pre\<close> before it
  succeeded, the steps \<open>post\<close> after it are never reached. Then, whatever happens
  outside afterwards, the deferred calls the process executes are exactly the rollbacks
  registered by the steps of \<open>pre\<close>, in the reverse of the order in which they were
  registered, each once (in particular no rollback of \<open>k\<close> or of a later step runs);
  the rollback of a step runs if and only if the step is one of \<open>pre\<close>, that is, its
  action was run and succeeded; and the init functions called are those of \<open>pre\<close> and
  of \<open>k\<close>.
\<close>

theorem init_failure_rollbacks:
  assumes "steps = pre @ k # post"
    and "\<forall>s\<in>set pre. init_err env s = None"
    and "init_err env k = Some e"
  shows "ran (trace (run_main env evs)) = rev (List.map_filter rollback_of pre)
       \<and> (\<forall>s c. rollback_of s = Some c \<longrightarrow>
            (Run c \<in> set (trace (run_main env evs)) \<longleftrightarrow> s \<in> set pre))
       \<and> (\<forall>s. Init s \<in> set (trace (run_main env evs)) \<longleftrightarrow> s \<in> set pre \<or> s = k)
       \<and> distinct (ran (trace (run_main env evs)))"
proof -
  note ms = main_start_failed [OF assms]
  have "\<not> alive (main_start env)"
    by (simp add: ms alive_def)
  then have r: "run_main env evs = main_start env"
    by (simp add: run_main_def run_dead)
  have tr: "ran (trace (run_main env evs)) = rev (List.map_filter rollback_of pre)"
    by (simp add: r ms ran_append ran_init_calls ran_map_Run)
  have "\<forall>s c. rollback_of s = Some c \<longrightarrow>
            (Run c \<in> set (trace (run_main env evs)) \<longleftrightarrow> s \<in> set pre)"
    by (simp add: Run_in_trace tr set_map_filter_rollback)
  moreover have "\<forall>s. Init s \<in> set (trace (run_main env evs)) \<longleftrightarrow> s \<in> set pre \<or> s = k"
    by (auto simp: r ms set_init_calls_Init)
  moreover have "distinct (ran (trace (run_main env evs)))"
    using steps_split [OF assms(1)] by (auto simp: tr List.map_filter_def)
  ultimately show ?thesis
    using tr by blast
qed

text \<open>
  The instance of the specification's example: \<^verbatim>\<open>redis.Init\<close> fails, so
  \<^verbatim>\<open>mysql.Close\<close> runs, then the logger flush, and nothing else.
\<close>

theorem init_failure_rollbacks_witness:
  "steps = [Settings, Logger, Mysql] @ Redis # [Mongodb, Snowflake, Validator]
   \<and> init_err (sample_env ((\<lambda>_. None)(Redis := Some (Error ''conn refused'')))) Redis
       = Some (Error ''conn refused'')
   \<and> ran (trace (run_main (sample_env ((\<lambda>_. None)(Redis := Some (Error ''conn refused''))))
        [Deliver SIGINT])) = [MysqlClose, ZapSync]"
  using init_failure_rollbacks [of "[Settings, Logger, Mysql]" Redis
      "[Mongodb, Snowflake, Validator]"
      "sample_env ((\<lambda>_. None)(Redis := Some (Error ''conn refused'')))"
      "Error ''conn refused''" "[Deliver SIGINT]"]
  by (simp add: steps_def List.map_filter_def sample_env_simps)

lemma printed_append: "printed (xs @ ys) = printed xs @ printed ys"
  by (induction xs rule: printed.induct) simp_all

lemma printed_map_Run: "printed (map Run cs) = []"
  by (induction cs) simp_all

lemma printed_init_calls: "printed (init_calls ss) = []"
proof (induction ss)
  case Nil
  then show ?case by (simp add: init_calls_def)
next
  case (Cons s ss)
  then show ?case by (cases s) (simp_all add: init_calls_def)
qed

lemma fail_prefix_inj: "fail_prefix k' = fail_prefix k \<Longrightarrow> k' = k"
  by (cases k; cases k') simp_all

text \<open>
  The sentence C3 as the specification has it, "the exit status is never zero on
  initialisation failure", is false of the code: every failure path of the
  initialisation is \<^verbatim>\<open>fmt.Printf(...); return\<close>, and a Go process whose \<^verbatim>\<open>main\<close>
  returns exits with status 0. Here \<^verbatim>\<open>settings.Init\<close> fails.
\<close>

theorem init_failure_exit_counterexample:
  "init_err (sample_env (\<lambda>_. Some (Error ''no such file''))) Settings
     = Some (Error ''no such file'')
   \<and> exit_status (run_main (sample_env (\<lambda>_. Some (Error ''no such file''))) []) = Some 0"
  by (simp add: sample_env_simps run_main_def main_start_def exit_status_def return_main_def
      emit_def proc0_def)

text \<open>
  C3, amended. When step \<open>k\<close> is the first step whose init call fails, with error
  \<open>e\<close>, the process prints exactly one line with \<^verbatim>\<open>fmt.Printf\<close>: the prefix that
  belongs to step \<open>k\<close> and to no other step, followed by the text of \<open>e\<close> and a newline.
  It then leaves through the \<^verbatim>\<open>return\<close> of \<^verbatim>\<open>main\<close>: after the printed line, and
  as the last thing the process does, the rollbacks deferred so far (those of the steps
  before \<open>k\<close>) are executed, last deferred first, none is left pending, and the exit
  status is 0. The whole trace is given: the init calls up to \<open>k\<close>, the printed line,
  the rollbacks.
\<close>

theorem init_failure_diagnostic:
  assumes "steps = pre @ k # post"
    and "\<forall>s\<in>set pre. init_err env s = None"
    and "init_err env k = Some e"
  shows "printed (trace (run_main env evs)) = [fail_prefix k @ Error_str e @ nl]
       \<and> (\<forall>k'. fail_prefix k' = fail_prefix k \<longrightarrow> k' = k)
       \<and> exit_status (run_main env evs) = Some 0
       \<and> trace (run_main env evs) =
           init_calls pre @ [Init k, Printf (fail_prefix k @ Error_str e @ nl)]
             @ map Run (rev (List.map_filter rollback_of pre))
       \<and> ran (trace (run_main env evs)) = rev (List.map_filter rollback_of pre)
       \<and> defers (run_main env evs) = []"
proof -
  note ms = main_start_failed [OF assms]
  have "\<not> alive (main_start env)"
    by (simp add: ms alive_def)
  then have r: "run_main env evs = main_start env"
    by (simp add: run_main_def run_dead)
  have p: "printed (trace (run_main env evs)) = [fail_prefix k @ Error_str e @ nl]"
    by (simp add: r ms printed_append printed_init_calls printed_map_Run)
  have x: "exit_status (run_main env evs) = Some 0"
    by (simp add: r ms exit_status_def)
  have t: "trace (run_main env evs) =
           init_calls pre @ [Init k, Printf (fail_prefix k @ Error_str e @ nl)]
             @ map Run (rev (List.map_filter rollback_of pre))"
    by (simp add: r ms)
  have c: "ran (trace (run_main env evs)) = rev (List.map_filter rollback_of pre)"
    by (simp add: r ms ran_append ran_init_calls ran_map_Run)
  have d: "defers (run_main env evs) = []"
    by (simp add: r ms)
  from p x t c d show ?thesis
    using fail_prefix_inj by blast
qed

text \<open>
  The instance in which \<^verbatim>\<open>mysql.Init\<close> fails: one line is printed, then the logger
  flush, the only call deferred so far, is run, and the status is 0.
\<close>

theorem init_failure_diagnostic_witness:
  "steps = [Settings, Logger] @ Mysql # [Redis, Mongodb, Snowflake, Validator]
   \<and> init_err (sample_env (all_succeed(Mysql := Some (Error ''access denied'')))) Settings = None
   \<and> init_err (sample_env (all_succeed(Mysql := Some (Error ''access denied'')))) Logger = None
   \<and> init_err (sample_env (all_succeed(Mysql := Some (Error ''access denied'')))) Mysql
       = Some (Error ''access denied'')
   \<and> printed (trace (run_main
         (sample_env (all_succeed(Mysql := Some (Error ''access denied'')))) []))
       = [''Init mysql failed, err:access denied'' @ nl]
   \<and> exit_status (run_main
         (sample_env (all_succeed(Mysql := Some (Error ''access denied'')))) [])
       = Some 0
   \<and> trace (run_main
         (sample_env (all_succeed(Mysql := Some (Error ''access denied'')))) [])
       = [Init Settings, Init Logger, ZapDebug ''logger init success'', Init Mysql,
          Printf (''Init mysql failed, err:access denied'' @ nl), Run ZapSync]
   \<and> ran (trace (run_main
         (sample_env (all_succeed(Mysql := Some (Error ''access denied'')))) []))
       = [ZapSync]
   \<and> defers (run_main
         (sample_env (all_succeed(Mysql := Some (Error ''access denied'')))) [])
       = []"
  using init_failure_diagnostic [of "[Settings, Logger]" Mysql
      "[Redis, Mongodb, Snowflake, Validator]"
      "sample_env (all_succeed(Mysql := Some (Error ''access denied'')))"
      "Error ''access denied''" "[]"]
  by (simp add: steps_def sample_env_simps all_succeed_def init_calls_def
      List.map_filter_def)

section \<open>No service without a complete initialisation\<close>

lemma init_calls_cases:
  "x \<in> set (init_calls ss) \<Longrightarrow> (\<exists>s. x = Init s) \<or> x = ZapDebug ''logger init success''"
proof (induction ss)
  case Nil
  then show ?case by (simp add: init_calls_def)
next
  case (Cons a ss)
  then show ?case by (cases a) (auto simp: init_calls_def)
qed

lemma step_trace: "\<exists>new. trace (step env e p) = trace p @ new \<and> list_all late new"
proof (cases e)
  case (Deliver s)
  then show ?thesis
    by (auto simp: relay_def recv_quit_def main_after_quit_def emit_def defer_call_def
        split: list.splits)
next
  case (ListenReturns r)
  then show ?thesis
    by (auto simp: serve_goroutine_def os_Exit_def emit_def split: option.splits)
next
  case (ShutdownReturns r)
  then show ?thesis
    by (auto simp: main_after_shutdown_def os_Exit_def return_main_def emit_def list_all_iff
        split: option.splits)
qed

lemma run_trace: "\<exists>new. trace (run env es p) = trace p @ new \<and> list_all late new"
proof (induction es arbitrary: p)
  case Nil
  then show ?case by simp
next
  case (Cons e es)
  from step_trace [of env e p] obtain n1 where
    n1: "trace (step env e p) = trace p @ n1" "list_all late n1" by blast
  from Cons.IH [of "step env e p"] obtain n2 where
    n2: "trace (run env es (step env e p)) = trace (step env e p) @ n2" "list_all late n2"
    by blast
  from n1 n2 have "trace (run env (e # es) p) = trace p @ (n1 @ n2) \<and> list_all late (n1 @ n2)"
    by simp
  then show ?case by blast
qed

text \<open>
  C5. Under every environment and every sequence of outside events,
  \<^verbatim>\<open>routes.Setup\<close> is called if and only if all seven init calls returned \<^verbatim>\<open>nil\<close>, and
  so is \<^verbatim>\<open>srv.ListenAndServe\<close>; when they are called, it is after all seven init calls,
  in this order, and neither is called a second time.
\<close>

theorem no_partial_service:
  "((\<exists>m. RoutesSetup m \<in> set (trace (run_main env evs))) \<longleftrightarrow> all_ok env)
   \<and> ((\<exists>n. GoListenAndServe n \<in> set (trace (run_main env evs))) \<longleftrightarrow> all_ok env)
   \<and> (all_ok env \<longrightarrow> (\<exists>new. trace (run_main env evs) =
         init_calls steps @ [RoutesSetup (conf_mode env), GoListenAndServe (conf_port env)] @ new
         \<and> (\<forall>m. RoutesSetup m \<notin> set new) \<and> (\<forall>n. GoListenAndServe n \<notin> set new)))"
proof (cases "all_ok env")
  case True
  from run_trace [of env evs "main_start env"] obtain new where
    new: "trace (run_main env evs) = trace (main_start env) @ new" "list_all late new"
    by (auto simp: run_main_def)
  let ?new = "SignalNotify [SIGINT, SIGTERM] # new"
  have t: "trace (run_main env evs) =
      init_calls steps @ [RoutesSetup (conf_mode env), GoListenAndServe (conf_port env)] @ ?new"
    by (simp add: new main_start_ok [OF True])
  have "\<forall>m. RoutesSetup m \<notin> set ?new" "\<forall>n. GoListenAndServe n \<notin> set ?new"
    using new(2) by (auto simp: list_all_iff)
  with t True show ?thesis by auto
next
  case False
  from first_failure [OF False] obtain pre k post e where
    f: "steps = pre @ k # post" "\<forall>s\<in>set pre. init_err env s = None" "init_err env k = Some e"
    by blast
  note ms = main_start_failed [OF f]
  have "\<not> alive (main_start env)"
    by (simp add: ms alive_def)
  then have r: "run_main env evs = main_start env"
    by (simp add: run_main_def run_dead)
  have "\<forall>m. RoutesSetup m \<notin> set (trace (run_main env evs))"
    by (auto simp: r ms dest: init_calls_cases)
  moreover have "\<forall>n. GoListenAndServe n \<notin> set (trace (run_main env evs))"
    by (auto simp: r ms dest: init_calls_cases)
  ultimately show ?thesis
    using False by blast
qed

theorem no_partial_service_witness:
  "all_ok (sample_env all_succeed)
   \<and> RoutesSetup ''dev'' \<in> set (trace (run_main (sample_env all_succeed) []))
   \<and> \<not> all_ok (sample_env (all_succeed(Validator := Some (Error ''no translator''))))
   \<and> RoutesSetup ''dev'' \<notin> set (trace (run_main
         (sample_env (all_succeed(Validator := Some (Error ''no translator'')))) [Deliver SIGTERM]))"
  using no_partial_service [of "sample_env all_succeed" "[]"]
    no_partial_service [of "sample_env (all_succeed(Validator := Some (Error ''no translator'')))"
      "[Deliver SIGTERM]"]
  by (auto simp: all_ok_def steps_def sample_env_simps all_succeed_def)

section \<open>The shape of every trace\<close>

lemma waiting_state:
  assumes "all_ok env"
  shows "(main_start env)\<lparr>serving := sv\<rparr> =
    \<lparr>phase = Waiting, trace = init_trace env,
     defers = [MongodbClose, RedisClose, MysqlClose, ZapSync],
     notify = [SIGINT, SIGTERM], quit = [], serving = sv\<rparr>"
  by (simp add: main_start_ok [OF assms] init_trace_def)

lemma stopping_state:
  assumes "all_ok env"
  shows "(main_after_quit s (main_start env))\<lparr>serving := sv, quit := q\<rparr> =
    \<lparr>phase = Stopping, trace = init_trace env @ shutdown_calls s,
     defers = [Cancel, MongodbClose, RedisClose, MysqlClose, ZapSync],
     notify = [SIGINT, SIGTERM], quit = q, serving = sv\<rparr>"
  by (simp add: main_start_ok [OF assms] init_trace_def shutdown_calls_def main_after_quit_def
      emit_def defer_call_def)

lemma live_cases:
  assumes "live_inv env p"
  obtains (W) sv where "all_ok env"
      "p = \<lparr>phase = Waiting, trace = init_trace env,
            defers = [MongodbClose, RedisClose, MysqlClose, ZapSync],
            notify = [SIGINT, SIGTERM], quit = [], serving = sv\<rparr>"
  | (S) s sv q where "all_ok env" "s = SIGINT \<or> s = SIGTERM" "length q \<le> 1"
      "p = \<lparr>phase = Stopping, trace = init_trace env @ shutdown_calls s,
            defers = [Cancel, MongodbClose, RedisClose, MysqlClose, ZapSync],
            notify = [SIGINT, SIGTERM], quit = q, serving = sv\<rparr>"
proof -
  from assms have ok: "all_ok env" by (simp add: live_inv_def)
  from assms consider
    (a) sv where "p = (main_start env)\<lparr>serving := sv\<rparr>"
  | (b) s sv q where "s = SIGINT \<or> s = SIGTERM" "length q \<le> 1"
      "p = (main_after_quit s (main_start env))\<lparr>serving := sv, quit := q\<rparr>"
    unfolding live_inv_def by blast
  then show thesis
  proof cases
    case a
    with W [OF ok] waiting_state [OF ok] show ?thesis by simp
  next
    case b
    with S [OF ok] stopping_state [OF ok] show ?thesis by simp
  qed
qed

lemma live_alive: "live_inv env p \<Longrightarrow> alive p"
  by (erule live_cases) (simp_all add: alive_def)

lemma tail_shape_shutdown:
  "s = SIGINT \<or> s = SIGTERM \<Longrightarrow> shutdown_end fin \<Longrightarrow> tail_shape (shutdown_calls s @ fin)"
  unfolding tail_shape_def by blast

lemma step_shape:
  assumes "live_inv env p"
  shows "\<exists>tail. trace (step env e p) = init_trace env @ tail \<and> tail_shape tail"
  using assms
proof (cases rule: live_cases)
  case (W sv)
  have "trace (step env e p) = init_trace env \<or> (\<exists>m. trace (step env e p) = init_trace env @ [LogFatalf m])
     \<or> (\<exists>s. (s = SIGINT \<or> s = SIGTERM) \<and> trace (step env e p) = init_trace env @ shutdown_calls s)"
  proof (cases e)
    case (Deliver s)
    with W(2) show ?thesis
      by (auto simp: alive_def relay_def recv_quit_def main_after_quit_def emit_def
          defer_call_def shutdown_calls_def)
  next
    case (ListenReturns r)
    with W(2) show ?thesis
      by (auto simp: alive_def serve_goroutine_def os_Exit_def emit_def split: option.splits)
  next
    case (ShutdownReturns r)
    with W(2) show ?thesis by simp
  qed
  then show ?thesis
    unfolding tail_shape_def shutdown_end_def by force
next
  case (S s sv q)
  have "\<exists>fin. trace (step env e p) = init_trace env @ shutdown_calls s @ fin \<and> shutdown_end fin"
  proof (cases e)
    case (Deliver s')
    with S(4) have "trace (step env e p) = init_trace env @ shutdown_calls s @ []"
      by (auto simp: alive_def relay_def)
    then show ?thesis unfolding shutdown_end_def by blast
  next
    case (ListenReturns r)
    with S(4) have "trace (step env e p) = init_trace env @ shutdown_calls s @ []
        \<or> (\<exists>m. trace (step env e p) = init_trace env @ shutdown_calls s @ [LogFatalf m])"
      by (auto simp: alive_def serve_goroutine_def os_Exit_def emit_def split: option.splits)
    then show ?thesis unfolding shutdown_end_def by blast
  next
    case (ShutdownReturns r)
    with S(4) have "(\<exists>err. trace (step env e p) =
          init_trace env @ shutdown_calls s @ [ZapFatal ''Server Shutdown: '' err])
        \<or> trace (step env e p) = init_trace env @ shutdown_calls s @
            ZapInfo ''Server exiting'' # map Run [Cancel, MongodbClose, RedisClose, MysqlClose, ZapSync]"
      by (auto simp: main_after_shutdown_def os_Exit_def return_main_def emit_def
          split: option.splits)
    then show ?thesis unfolding shutdown_end_def by blast
  qed
  with S(2) show ?thesis using tail_shape_shutdown by blast
qed

lemma run_main_shape:
  assumes "all_ok env"
  shows "\<exists>tail. trace (run_main env evs) = init_trace env @ tail \<and> tail_shape tail"
proof (induction evs rule: rev_induct)
  case Nil
  have "trace (run_main env []) = init_trace env @ []"
    by (simp add: run_main_def main_start_ok [OF assms] init_trace_def)
  moreover have "tail_shape []" by (simp add: tail_shape_def)
  ultimately show ?case by blast
next
  case (snoc e evs)
  show ?case
  proof (cases "alive (run_main env evs)")
    case True
    then have "live_inv env (run_main env evs)" by (rule run_main_live)
    from step_shape [OF this, of e] show ?thesis by (simp add: run_main_snoc)
  next
    case False
    then have "run_main env (evs @ [e]) = run_main env evs"
      by (simp add: run_main_snoc step_dead)
    with snoc.IH show ?thesis by simp
  qed
qed

section \<open>The return of \<^verbatim>\<open>srv.Shutdown\<close>\<close>

lemma ran_init_trace: "ran (init_trace env) = []"
  by (simp add: init_trace_def ran_append ran_init_calls)

lemma ran_shutdown_calls: "ran (shutdown_calls s) = []"
  by (simp add: shutdown_calls_def)

text \<open>
  The sentence C2 as the specification has it, "still invokes every registered
  rollback", is false of the code: \<^verbatim>\<open>zap.L().Fatal\<close> ends in \<^verbatim>\<open>os.Exit(1)\<close>, which
  runs no deferred call. Every step succeeds, \<^verbatim>\<open>SIGTERM\<close> arrives, \<^verbatim>\<open>srv.Shutdown\<close>
  returns \<^verbatim>\<open>context.DeadlineExceeded\<close>: the process exits with status 1, no deferred
  call has run, and all five are still pending.
\<close>

theorem shutdown_timeout_counterexample:
  "all_ok (sample_env all_succeed)
   \<and> exit_status (run_main (sample_env all_succeed)
        [Deliver SIGTERM, ShutdownReturns (Some DeadlineExceeded)]) = Some 1
   \<and> ran (trace (run_main (sample_env all_succeed)
        [Deliver SIGTERM, ShutdownReturns (Some DeadlineExceeded)])) = []
   \<and> defers (run_main (sample_env all_succeed)
        [Deliver SIGTERM, ShutdownReturns (Some DeadlineExceeded)])
       = [Cancel, MongodbClose, RedisClose, MysqlClose, ZapSync]"
proof -
  have ok: "all_ok (sample_env all_succeed)"
    by (simp add: all_ok_def steps_def sample_env_simps all_succeed_def)
  show ?thesis
    by (simp add: ok run_main_def main_start_ok [OF ok] alive_def relay_def recv_quit_def
        main_after_quit_def main_after_shutdown_def os_Exit_def emit_def defer_call_def
        exit_status_def ran_append ran_init_calls SIGTERM_def SIGINT_def)
qed

text \<open>
  C2, amended. Whenever \<^verbatim>\<open>main\<close> is inside \<^verbatim>\<open>srv.Shutdown\<close> and the call returns an
  error (\<^verbatim>\<open>context.DeadlineExceeded\<close> when the 5-second deadline passes first), the
  process reports the error with \<^verbatim>\<open>zap.L().Fatal\<close> and exits with status 1 at once:
  the fatal record is the last event, no deferred call is executed, and the five
  deferred calls (\<^verbatim>\<open>cancel\<close>, \<^verbatim>\<open>mongodb.Close\<close>, \<^verbatim>\<open>redis.Close\<close>, \<^verbatim>\<open>mysql.Close\<close>, the
  logger flush) are left pending. Later outside events change nothing.
\<close>

theorem shutdown_error_is_fatal:
  assumes "phase (run_main env evs) = Stopping"
  shows "exit_status (run_main env (evs @ ShutdownReturns (Some err) # rest)) = Some 1
     \<and> trace (run_main env (evs @ ShutdownReturns (Some err) # rest))
         = trace (run_main env evs) @ [ZapFatal ''Server Shutdown: '' err]
     \<and> ran (trace (run_main env (evs @ ShutdownReturns (Some err) # rest))) = []
     \<and> defers (run_main env (evs @ ShutdownReturns (Some err) # rest))
         = [Cancel, MongodbClose, RedisClose, MysqlClose, ZapSync]"
proof -
  define p where "p = run_main env evs"
  define r where "r = step env (ShutdownReturns (Some err)) p"
  from assms have "alive p"
    by (simp add: alive_def p_def)
  then have "live_inv env p"
    unfolding p_def by (rule run_main_live)
  then have q: "phase r = Exited 1
      \<and> trace r = trace p @ [ZapFatal ''Server Shutdown: '' err]
      \<and> ran (trace r) = []
      \<and> defers r = [Cancel, MongodbClose, RedisClose, MysqlClose, ZapSync]"
  proof (cases rule: live_cases)
    case (W sv)
    with assms show ?thesis by (simp add: p_def)
  next
    case (S s sv q)
    show ?thesis
      unfolding r_def S(4)
      by (simp add: main_after_shutdown_def os_Exit_def emit_def ran_append ran_init_trace
            ran_shutdown_calls)
  qed
  then have "\<not> alive r"
    by (simp add: alive_def)
  then have "run env rest r = r"
    by (rule run_dead)
  then have e: "run_main env (evs @ ShutdownReturns (Some err) # rest) = r"
    by (simp add: run_main_append r_def p_def)
  from q have "exit_status r = Some 1"
    by (simp add: exit_status_def)
  with q show ?thesis
    unfolding e p_def by blast
qed

theorem shutdown_error_is_fatal_witness:
  "phase (run_main (sample_env all_succeed) [Deliver SIGINT]) = Stopping
   \<and> exit_status (run_main (sample_env all_succeed)
        ([Deliver SIGINT] @ ShutdownReturns (Some DeadlineExceeded) # [])) = Some 1
   \<and> ran (trace (run_main (sample_env all_succeed)
        ([Deliver SIGINT] @ ShutdownReturns (Some DeadlineExceeded) # []))) = []"
proof -
  have ok: "all_ok (sample_env all_succeed)"
    by (simp add: all_ok_def steps_def sample_env_simps all_succeed_def)
  have ph: "phase (run_main (sample_env all_succeed) [Deliver SIGINT]) = Stopping"
    by (simp add: run_main_def main_start_ok [OF ok] alive_def relay_def recv_quit_def
        main_after_quit_def emit_def defer_call_def)
  from shutdown_error_is_fatal [OF ph, of DeadlineExceeded "[]"] have
    "exit_status (run_main (sample_env all_succeed)
        ([Deliver SIGINT] @ ShutdownReturns (Some DeadlineExceeded) # [])) = Some 1"
    "ran (trace (run_main (sample_env all_succeed)
        ([Deliver SIGINT] @ ShutdownReturns (Some DeadlineExceeded) # []))) = []"
    by blast+
  with ph show ?thesis by blast
qed

section \<open>A failing listener\<close>

lemma all_ok_sample: "all_ok (sample_env all_succeed)"
  by (simp add: all_ok_def steps_def sample_env_simps all_succeed_def)

lemma count_init_calls_listen: "count_list (init_calls ss) (GoListenAndServe n) = 0"
proof (induction ss)
  case Nil
  then show ?case by (simp add: init_calls_def)
next
  case (Cons s ss)
  then show ?case by (cases s) (simp_all add: init_calls_def)
qed

lemma count_list_append: "count_list (xs @ ys) x = count_list xs x + count_list ys x"
  by (induction xs) simp_all

lemma count_init_trace_listen:
  "count_list (init_trace env) (GoListenAndServe (conf_port env)) = 1"
  by (simp add: init_trace_def count_list_append count_init_calls_listen)

text \<open>What a failing \<^verbatim>\<open>ListenAndServe\<close> does to a live process whose goroutine still serves.\<close>

lemma listen_fatal_step:
  assumes live: "live_inv env p" and sv: "serving p" and err: "err \<noteq> ErrServerClosed"
  shows "step env (ListenReturns (Some err)) p =
     p\<lparr>phase := Exited 1, trace := trace p @ [LogFatalf (''listen: '' @ Error_str err @ nl)],
       serving := False\<rparr>"
  using live
proof (cases rule: live_cases)
  case (W sv')
  with sv err show ?thesis
    by (simp add: alive_def serve_goroutine_def os_Exit_def emit_def)
next
  case (S s sv' q)
  with sv err show ?thesis
    by (simp add: alive_def serve_goroutine_def os_Exit_def emit_def)
qed

lemma listen_fatal_run:
  assumes a: "alive (run_main env evs)" and sv: "serving (run_main env evs)"
    and err: "err \<noteq> ErrServerClosed"
  shows "run_main env (evs @ ListenReturns (Some err) # rest) =
     (run_main env evs)\<lparr>phase := Exited 1,
        trace := trace (run_main env evs) @ [LogFatalf (''listen: '' @ Error_str err @ nl)],
        serving := False\<rparr>"
proof -
  define p where "p = run_main env evs"
  define r where "r = step env (ListenReturns (Some err)) p"
  have live: "live_inv env p"
    unfolding p_def using a by (rule run_main_live)
  have r: "r = p\<lparr>phase := Exited 1,
      trace := trace p @ [LogFatalf (''listen: '' @ Error_str err @ nl)], serving := False\<rparr>"
    unfolding r_def by (rule listen_fatal_step [OF live _ err]) (simp add: p_def sv)
  then have "\<not> alive r"
    by (simp add: alive_def)
  then have "run env rest r = r"
    by (rule run_dead)
  then have "run_main env (evs @ ListenReturns (Some err) # rest) = r"
    by (simp add: run_main_append r_def p_def)
  with r show ?thesis
    by (simp add: p_def)
qed

lemma live_count_listen:
  assumes "live_inv env p"
  shows "count_list (trace p) (GoListenAndServe (conf_port env)) = 1"
  using assms
  by (cases rule: live_cases)
     (simp_all add: count_list_append count_init_trace_listen shutdown_calls_def)

lemma live_ran: "live_inv env p \<Longrightarrow> ran (trace p) = []"
  by (erule live_cases) (simp_all add: ran_append ran_init_trace ran_shutdown_calls)

lemma live_pending:
  "live_inv env p \<Longrightarrow> defers p = [MongodbClose, RedisClose, MysqlClose, ZapSync]
     \<or> defers p = [Cancel, MongodbClose, RedisClose, MysqlClose, ZapSync]"
  by (erule live_cases) simp_all

text \<open>
  C6. Whenever the process is alive with the goroutine inside \<^verbatim>\<open>srv.ListenAndServe\<close>,
  and that call returns an error other than \<^verbatim>\<open>http.ErrServerClosed\<close> (a bind failure
  is the case with no earlier outside event), the process exits with status 1, and the
  last thing it does is \<^verbatim>\<open>log.Fatalf\<close> with the text \<^verbatim>\<open>listen: \<close>, the error and a
  newline. The error is not retried: in the whole run \<^verbatim>\<open>srv.ListenAndServe\<close> is called
  once, and no later outside event adds to the trace.
\<close>

theorem listen_failure_is_fatal:
  assumes "alive (run_main env evs)" and "serving (run_main env evs)"
    and "err \<noteq> ErrServerClosed"
  shows "exit_status (run_main env (evs @ ListenReturns (Some err) # rest)) = Some 1
     \<and> trace (run_main env (evs @ ListenReturns (Some err) # rest))
         = trace (run_main env evs) @ [LogFatalf (''listen: '' @ Error_str err @ nl)]
     \<and> count_list (trace (run_main env (evs @ ListenReturns (Some err) # rest)))
         (GoListenAndServe (conf_port env)) = 1"
proof -
  have "live_inv env (run_main env evs)"
    using assms(1) by (rule run_main_live)
  then have "count_list (trace (run_main env evs)) (GoListenAndServe (conf_port env)) = 1"
    by (rule live_count_listen)
  then show ?thesis
    by (simp add: listen_fatal_run [OF assms] exit_status_def count_list_append)
qed

theorem listen_failure_is_fatal_witness:
  "alive (run_main (sample_env all_succeed) [])
   \<and> serving (run_main (sample_env all_succeed) [])
   \<and> Error ''bind: address already in use'' \<noteq> ErrServerClosed
   \<and> exit_status (run_main (sample_env all_succeed)
        ([] @ ListenReturns (Some (Error ''bind: address already in use'')) # [Deliver SIGINT]))
       = Some 1"
proof -
  have a: "alive (run_main (sample_env all_succeed) [])"
    and s: "serving (run_main (sample_env all_succeed) [])"
    by (simp_all add: run_main_def main_start_ok [OF all_ok_sample] alive_def)
  have e: "Error ''bind: address already in use'' \<noteq> ErrServerClosed" by simp
  from listen_failure_is_fatal [OF a s e, of "[Deliver SIGINT]"] a s show ?thesis
    by blast
qed

text \<open>
  C9. In the same situation every init call had succeeded, yet the process exits
  with status 1 without having executed a single deferred call: \<^verbatim>\<open>mongodb.Close\<close>,
  \<^verbatim>\<open>redis.Close\<close>, \<^verbatim>\<open>mysql.Close\<close> and the logger flush are still on the stack of
  deferred calls when the process is gone, and \<^verbatim>\<open>log.Fatalf\<close> is its last event.
\<close>

theorem listen_failure_skips_rollbacks:
  assumes "alive (run_main env evs)" and "serving (run_main env evs)"
    and "err \<noteq> ErrServerClosed"
  shows "all_ok env
     \<and> exit_status (run_main env (evs @ ListenReturns (Some err) # rest)) = Some 1
     \<and> ran (trace (run_main env (evs @ ListenReturns (Some err) # rest))) = []
     \<and> set [MongodbClose, RedisClose, MysqlClose, ZapSync]
         \<subseteq> set (defers (run_main env (evs @ ListenReturns (Some err) # rest)))
     \<and> last (trace (run_main env (evs @ ListenReturns (Some err) # rest)))
         = LogFatalf (''listen: '' @ Error_str err @ nl)"
proof -
  have live: "live_inv env (run_main env evs)"
    using assms(1) by (rule run_main_live)
  then have "all_ok env"
    by (simp add: live_inv_def)
  moreover have "ran (trace (run_main env (evs @ ListenReturns (Some err) # rest))) = []"
    by (simp add: listen_fatal_run [OF assms] ran_append live_ran [OF live])
  moreover have "set [MongodbClose, RedisClose, MysqlClose, ZapSync]
         \<subseteq> set (defers (run_main env (evs @ ListenReturns (Some err) # rest)))"
    using live_pending [OF live] by (auto simp: listen_fatal_run [OF assms])
  ultimately show ?thesis
    by (simp add: listen_fatal_run [OF assms] exit_status_def)
qed

theorem listen_failure_skips_rollbacks_witness:
  "alive (run_main (sample_env all_succeed) [Deliver SIGINT])
   \<and> serving (run_main (sample_env all_succeed) [Deliver SIGINT])
   \<and> Error ''accept: too many open files'' \<noteq> ErrServerClosed
   \<and> ran (trace (run_main (sample_env all_succeed)
        ([Deliver SIGINT] @ ListenReturns (Some (Error ''accept: too many open files'')) # [])))
       = []
   \<and> exit_status (run_main (sample_env all_succeed)
        ([Deliver SIGINT] @ ListenReturns (Some (Error ''accept: too many open files'')) # []))
       = Some 1"
proof -
  have a: "alive (run_main (sample_env all_succeed) [Deliver SIGINT])"
    and s: "serving (run_main (sample_env all_succeed) [Deliver SIGINT])"
    by (simp_all add: run_main_def main_start_ok [OF all_ok_sample] alive_def relay_def
        recv_quit_def main_after_quit_def emit_def defer_call_def)
  have e: "Error ''accept: too many open files'' \<noteq> ErrServerClosed" by simp
  from listen_failure_skips_rollbacks [OF a s e, of "[]"] a s show ?thesis
    by blast
qed

section \<open>The clean path\<close>

text \<open>While \<^verbatim>\<open>main\<close> is inside \<^verbatim>\<open>Shutdown\<close>, the goroutine's clean return changes nothing else.\<close>

lemma run_closed_returns:
  assumes ok: "all_ok env" and a: "set a \<subseteq> {ListenReturns (Some ErrServerClosed)}"
  shows "\<exists>sv'. run env a ((main_after_quit s (main_start env))\<lparr>serving := sv, quit := q\<rparr>)
           = (main_after_quit s (main_start env))\<lparr>serving := sv', quit := q\<rparr>"
  using a
proof (induction a arbitrary: sv)
  case Nil
  show ?case by (rule exI [of _ sv]) simp
next
  case (Cons e a)
  then have e: "e = ListenReturns (Some ErrServerClosed)" by simp
  have "step env e ((main_after_quit s (main_start env))\<lparr>serving := sv, quit := q\<rparr>)
      = (main_after_quit s (main_start env))\<lparr>serving := False, quit := q\<rparr>"
    unfolding e stopping_state [OF ok]
    by (cases sv) (simp_all add: alive_def serve_goroutine_def)
  moreover from Cons.prems have "set a \<subseteq> {ListenReturns (Some ErrServerClosed)}" by simp
  from Cons.IH [OF this, where sv = False] obtain sv' where
    "run env a ((main_after_quit s (main_start env))\<lparr>serving := False, quit := q\<rparr>)
       = (main_after_quit s (main_start env))\<lparr>serving := sv', quit := q\<rparr>" by blast
  ultimately have "run env (e # a) ((main_after_quit s (main_start env))\<lparr>serving := sv, quit := q\<rparr>)
       = (main_after_quit s (main_start env))\<lparr>serving := sv', quit := q\<rparr>"
    by simp
  then show ?case by (rule exI)
qed

lemma deliver_first:
  assumes ok: "all_ok env" and s: "s = SIGINT \<or> s = SIGTERM"
  shows "step env (Deliver s) (main_start env)
     = (main_after_quit s (main_start env))\<lparr>serving := True, quit := []\<rparr>"
  using s
  by (auto simp: stopping_state [OF ok] main_start_ok [OF ok] alive_def relay_def recv_quit_def
      main_after_quit_def emit_def defer_call_def shutdown_calls_def init_trace_def)

text \<open>
  C4. Every init step succeeds, the server goroutine is started, one signal
  (\<^verbatim>\<open>SIGINT\<close> or \<^verbatim>\<open>SIGTERM\<close>) is delivered, and \<^verbatim>\<open>srv.Shutdown\<close> returns \<^verbatim>\<open>nil\<close>;
  meanwhile the goroutine's \<^verbatim>\<open>ListenAndServe\<close> may return \<^verbatim>\<open>http.ErrServerClosed\<close>.
  Then the process exits with status 0, and on the way out it runs \<^verbatim>\<open>cancel\<close> and
  then the four rollbacks, each once, in the order \<^verbatim>\<open>mongodb.Close\<close>, \<^verbatim>\<open>redis.Close\<close>,
  \<^verbatim>\<open>mysql.Close\<close>, logger flush; no deferred call is left. The whole trace is given.
\<close>

theorem clean_shutdown:
  assumes "all_ok env" and "s = SIGINT \<or> s = SIGTERM"
    and "set a \<subseteq> {ListenReturns (Some ErrServerClosed)}"
  shows "exit_status (run_main env (Deliver s # a @ ShutdownReturns None # rest)) = Some 0
     \<and> trace (run_main env (Deliver s # a @ ShutdownReturns None # rest))
         = init_trace env @ shutdown_calls s @ ZapInfo ''Server exiting''
             # map Run [Cancel, MongodbClose, RedisClose, MysqlClose, ZapSync]
     \<and> rollbacks_run (trace (run_main env (Deliver s # a @ ShutdownReturns None # rest)))
         = [MongodbClose, RedisClose, MysqlClose, ZapSync]
     \<and> defers (run_main env (Deliver s # a @ ShutdownReturns None # rest)) = []"
proof -
  define r where "r = run_main env (Deliver s # a @ ShutdownReturns None # rest)"
  from run_closed_returns [OF assms(1,3), where s = s and sv = True and q = "[]"] obtain sv' where
    sv': "run env a ((main_after_quit s (main_start env))\<lparr>serving := True, quit := []\<rparr>)
       = (main_after_quit s (main_start env))\<lparr>serving := sv', quit := []\<rparr>" by blast
  have "run env (Deliver s # a) (main_start env)
      = run env a (step env (Deliver s) (main_start env))"
    by simp
  also have "\<dots> = (main_after_quit s (main_start env))\<lparr>serving := sv', quit := []\<rparr>"
    unfolding deliver_first [OF assms(1,2)] by (rule sv')
  finally have p: "run env (Deliver s # a) (main_start env) =
      \<lparr>phase = Stopping, trace = init_trace env @ shutdown_calls s,
       defers = [Cancel, MongodbClose, RedisClose, MysqlClose, ZapSync],
       notify = [SIGINT, SIGTERM], quit = [], serving = sv'\<rparr>"
    by (simp only: stopping_state [OF assms(1)])
  define f where "f = step env (ShutdownReturns None) (run env (Deliver s # a) (main_start env))"
  have f: "f = \<lparr>phase = Exited 0,
       trace = init_trace env @ shutdown_calls s @ ZapInfo ''Server exiting''
             # map Run [Cancel, MongodbClose, RedisClose, MysqlClose, ZapSync],
       defers = [], notify = [SIGINT, SIGTERM], quit = [], serving = False\<rparr>"
    unfolding f_def p by (simp add: main_after_shutdown_def return_main_def emit_def)
  then have "\<not> alive f" by (simp add: alive_def)
  then have "run env rest f = f" by (rule run_dead)
  then have "r = f"
    unfolding r_def run_main_def f_def
    using run_append [of env "Deliver s # a" "ShutdownReturns None # rest" "main_start env"]
    by simp
  then show ?thesis
    unfolding r_def [symmetric]
    by (simp add: f exit_status_def rollbacks_run_def ran_append ran_init_trace
        ran_shutdown_calls)
qed

theorem clean_shutdown_witness:
  "all_ok (sample_env all_succeed)
   \<and> set [ListenReturns (Some ErrServerClosed)] \<subseteq> {ListenReturns (Some ErrServerClosed)}
   \<and> exit_status (run_main (sample_env all_succeed)
        (Deliver SIGINT # [ListenReturns (Some ErrServerClosed)] @ ShutdownReturns None # []))
       = Some 0
   \<and> rollbacks_run (trace (run_main (sample_env all_succeed)
        (Deliver SIGINT # [ListenReturns (Some ErrServerClosed)] @ ShutdownReturns None # [])))
       = [MongodbClose, RedisClose, MysqlClose, ZapSync]"
proof -
  have a: "set [ListenReturns (Some ErrServerClosed)] \<subseteq> {ListenReturns (Some ErrServerClosed)}"
    by simp
  have s: "SIGINT = SIGINT \<or> SIGINT = SIGTERM" by simp
  from clean_shutdown [OF all_ok_sample s a, of "[]"] all_ok_sample a show ?thesis
    by blast
qed

section \<open>The shutdown deadline\<close>

lemma late_not_init_trace: "late e \<Longrightarrow> e \<notin> set (init_trace env)"
  by (auto simp: init_trace_def dest: init_calls_cases)

lemma shutdown_end_no_call:
  assumes "shutdown_end fin"
  shows "QuitRecv s \<notin> set fin" "WithTimeout d \<notin> set fin" "SrvShutdown d \<notin> set fin"
  using assms by (auto simp: shutdown_end_def)

lemma failed_no_QuitRecv:
  assumes "\<not> all_ok env"
  shows "QuitRecv s \<notin> set (trace (run_main env evs))"
proof -
  from first_failure [OF assms] obtain pre k post e where
    f: "steps = pre @ k # post" "\<forall>s\<in>set pre. init_err env s = None" "init_err env k = Some e"
    by blast
  note ms = main_start_failed [OF f]
  have "\<not> alive (main_start env)"
    by (simp add: ms alive_def)
  then have r: "run_main env evs = main_start env"
    by (simp add: run_main_def run_dead)
  show ?thesis
    by (auto simp: r ms dest: init_calls_cases)
qed

lemma QuitRecv_shape:
  assumes "QuitRecv s \<in> set (trace (run_main env evs))"
  shows "all_ok env \<and> (s = SIGINT \<or> s = SIGTERM)
     \<and> (\<exists>fin. trace (run_main env evs) = init_trace env @ shutdown_calls s @ fin
           \<and> shutdown_end fin)"
proof -
  from assms failed_no_QuitRecv have ok: "all_ok env" by blast
  from run_main_shape [OF ok, of evs] obtain rest where
    t: "trace (run_main env evs) = init_trace env @ rest" and sh: "tail_shape rest" by blast
  from assms t have "QuitRecv s \<in> set rest"
    using late_not_init_trace [of "QuitRecv s" env] by simp
  with sh obtain s' fin where s': "s' = SIGINT \<or> s' = SIGTERM"
    "rest = shutdown_calls s' @ fin" "shutdown_end fin"
    unfolding tail_shape_def by auto
  from \<open>QuitRecv s \<in> set rest\<close> s'(2) shutdown_end_no_call(1) [OF s'(3), of s]
  have "s = s'" by (simp add: shutdown_calls_def)
  with ok s' t show ?thesis by blast
qed

text \<open>
  C7. In every run in which \<^verbatim>\<open>main\<close> receives a signal \<open>s\<close> from \<^verbatim>\<open>quit\<close>, the
  receive is followed directly by the log record \<^verbatim>\<open>Shutdown Server ...\<close>, the creation
  of a context whose timeout is \<^verbatim>\<open>5*time.Second\<close>, and the call of \<^verbatim>\<open>srv.Shutdown\<close>
  with that context; nothing else happens in between, no other context is created and
  \<^verbatim>\<open>srv.Shutdown\<close> is called nowhere else. The timeout does not depend on the
  environment, and as an \<^verbatim>\<open>int64\<close> number of nanoseconds it is 5000000000, five seconds.
\<close>

theorem shutdown_deadline:
  assumes "QuitRecv s \<in> set (trace (run_main env evs))"
  shows "\<exists>fin. trace (run_main env evs) =
            init_trace env
            @ [QuitRecv s, ZapInfo ''Shutdown Server ...'', WithTimeout (5 * Second),
               SrvShutdown (5 * Second)]
            @ fin
          \<and> (\<forall>d. WithTimeout d \<notin> set (init_trace env) \<and> SrvShutdown d \<notin> set (init_trace env)
                \<and> WithTimeout d \<notin> set fin \<and> SrvShutdown d \<notin> set fin)
          \<and> sint (5 * Second) = 5 * 1000000000"
proof -
  from QuitRecv_shape [OF assms] obtain fin where
    t: "trace (run_main env evs) = init_trace env @ shutdown_calls s @ fin"
    and fin: "shutdown_end fin" by blast
  have "\<forall>d. WithTimeout d \<notin> set (init_trace env) \<and> SrvShutdown d \<notin> set (init_trace env)
                \<and> WithTimeout d \<notin> set fin \<and> SrvShutdown d \<notin> set fin"
    using shutdown_end_no_call [OF fin] by (simp add: late_not_init_trace)
  moreover have "sint (5 * Second) = 5 * 1000000000"
    by (simp add: Second_def)
  ultimately show ?thesis
    using t unfolding shutdown_calls_def by blast
qed

theorem shutdown_deadline_witness:
  "QuitRecv SIGTERM \<in> set (trace (run_main (sample_env all_succeed) [Deliver SIGTERM]))
   \<and> WithTimeout (5 * Second) \<in> set (trace (run_main (sample_env all_succeed) [Deliver SIGTERM]))
   \<and> SrvShutdown (5 * Second) \<in> set (trace (run_main (sample_env all_succeed) [Deliver SIGTERM]))
   \<and> sint (5 * Second) = 5000000000"
proof -
  have q: "QuitRecv SIGTERM \<in> set (trace (run_main (sample_env all_succeed) [Deliver SIGTERM]))"
    by (simp add: run_main_def main_start_ok [OF all_ok_sample] alive_def relay_def
        recv_quit_def main_after_quit_def emit_def defer_call_def)
  from shutdown_deadline [OF q] q show ?thesis by auto
qed

section \<open>Waiting for a signal\<close>





section \<open>A second signal\<close>

lemma received_append: "received (xs @ ys) = received xs @ received ys"
  by (induction xs rule: received.induct) simp_all

lemma received_init_calls: "received (init_calls ss) = []"
proof (induction ss)
  case Nil
  then show ?case by (simp add: init_calls_def)
next
  case (Cons s ss)
  then show ?case by (cases s) (simp_all add: init_calls_def)
qed

lemma received_init_trace: "received (init_trace env) = []"
  by (simp add: init_trace_def received_append received_init_calls)

lemma received_shutdown_end: "shutdown_end fin \<Longrightarrow> received fin = []"
  by (auto simp: shutdown_end_def)

lemma step_not_Waiting: "phase p \<noteq> Waiting \<Longrightarrow> phase (step env e p) \<noteq> Waiting"
  by (cases e)
     (auto simp: alive_def relay_def serve_goroutine_def os_Exit_def emit_def
        main_after_shutdown_def return_main_def split: option.splits)

lemma step_agree:
  assumes "agree p p'" and "phase p \<noteq> Waiting"
  shows "agree (step env e p) (step env e p')"
proof (cases e)
  case (Deliver s)
  with assms show ?thesis
    by (auto simp: agree_def alive_def relay_def)
next
  case (ListenReturns r)
  with assms show ?thesis
    by (auto simp: agree_def alive_def serve_goroutine_def os_Exit_def emit_def
        split: option.splits)
next
  case (ShutdownReturns r)
  with assms show ?thesis
    by (auto simp: agree_def main_after_shutdown_def os_Exit_def return_main_def emit_def
        split: option.splits)
qed

lemma run_agree:
  "agree p p' \<Longrightarrow> phase p \<noteq> Waiting \<Longrightarrow> agree (run env es p) (run env es p')"
proof (induction es arbitrary: p p')
  case Nil
  then show ?case by simp
next
  case (Cons e es)
  from Cons.prems have "agree (step env e p) (step env e p')" by (rule step_agree)
  moreover from Cons.prems(2) have "phase (step env e p) \<noteq> Waiting" by (rule step_not_Waiting)
  ultimately have "agree (run env es (step env e p)) (run env es (step env e p'))"
    by (rule Cons.IH)
  then show ?case by simp
qed

lemma step_quit_kept:
  "phase p \<noteq> Waiting \<Longrightarrow> quit p \<noteq> [] \<Longrightarrow> quit (step env e p) \<noteq> []"
  by (cases e)
     (auto simp: alive_def relay_def serve_goroutine_def os_Exit_def emit_def
        main_after_shutdown_def return_main_def split: option.splits)

lemma run_quit_kept:
  "phase p \<noteq> Waiting \<Longrightarrow> quit p \<noteq> [] \<Longrightarrow> quit (run env es p) \<noteq> []"
proof (induction es arbitrary: p)
  case Nil
  then show ?case by simp
next
  case (Cons e es)
  from Cons.prems have "quit (step env e p) \<noteq> []" by (rule step_quit_kept)
  moreover from Cons.prems(1) have "phase (step env e p) \<noteq> Waiting" by (rule step_not_Waiting)
  ultimately show ?case using Cons.IH by simp
qed

lemma step_quit_capacity: "length (quit p) \<le> 1 \<Longrightarrow> length (quit (step env e p)) \<le> 1"
  by (cases e)
     (auto simp: alive_def relay_def recv_quit_def main_after_quit_def emit_def defer_call_def
        serve_goroutine_def os_Exit_def main_after_shutdown_def return_main_def
        split: option.splits list.splits)

lemma run_quit_capacity: "length (quit p) \<le> 1 \<Longrightarrow> length (quit (run env es p)) \<le> 1"
proof (induction es arbitrary: p)
  case Nil
  then show ?case by simp
next
  case (Cons e es)
  from Cons.prems have "length (quit (step env e p)) \<le> 1" by (rule step_quit_capacity)
  then have "length (quit (run env es (step env e p))) \<le> 1" by (rule Cons.IH)
  then show ?case by simp
qed

lemma main_start_quit: "quit (main_start env) = []"
proof (cases "all_ok env")
  case True
  then show ?thesis by (simp add: main_start_ok)
next
  case False
  from first_failure [OF False] obtain pre k post e where
    f: "steps = pre @ k # post" "\<forall>s\<in>set pre. init_err env s = None" "init_err env k = Some e"
    by blast
  show ?thesis by (simp add: main_start_failed [OF f])
qed

text \<open>
  C10. Let \<^verbatim>\<open>main\<close> be inside \<^verbatim>\<open>srv.Shutdown\<close>, and let a further \<^verbatim>\<open>SIGINT\<close> or
  \<^verbatim>\<open>SIGTERM\<close> be delivered. Whatever happens afterwards, the run with this signal and
  the run without it have the same trace, the same phase (so the same exit status) and
  the same deferred calls. In the run with it, exactly one value was ever read from
  \<^verbatim>\<open>quit\<close>, and the channel, which never holds more than one value, is not empty at
  the end: the second signal is still in the buffer, unread.
\<close>

theorem second_signal_ignored:
  assumes "phase (run_main env pre) = Stopping" and "s = SIGINT \<or> s = SIGTERM"
  shows "trace (run_main env (pre @ Deliver s # post)) = trace (run_main env (pre @ post))
     \<and> phase (run_main env (pre @ Deliver s # post)) = phase (run_main env (pre @ post))
     \<and> defers (run_main env (pre @ Deliver s # post)) = defers (run_main env (pre @ post))
     \<and> length (received (trace (run_main env (pre @ Deliver s # post)))) = 1
     \<and> quit (run_main env (pre @ Deliver s # post)) \<noteq> []
     \<and> length (quit (run_main env (pre @ Deliver s # post))) \<le> 1"
proof -
  define p where "p = run_main env pre"
  define p1 where "p1 = step env (Deliver s) p"
  have ph: "phase p = Stopping"
    using assms(1) by (simp add: p_def)
  then have "alive p" by (simp add: alive_def)
  then have live: "live_inv env p"
    unfolding p_def by (rule run_main_live)
  then have p1: "agree p1 p \<and> phase p1 = Stopping \<and> quit p1 \<noteq> []"
  proof (cases rule: live_cases)
    case (W sv)
    with ph show ?thesis by simp
  next
    case (S s' sv q)
    show ?thesis
      unfolding p1_def S(4) using assms(2)
      by (cases q) (auto simp: agree_def alive_def relay_def)
  qed
  have r1: "run_main env (pre @ Deliver s # post) = run env post p1"
    by (simp add: run_main_append p1_def p_def)
  have r0: "run_main env (pre @ post) = run env post p"
    by (simp add: run_main_append p_def)
  from p1 have "agree (run env post p1) (run env post p)"
    by (intro run_agree) simp_all
  then have a: "agree (run_main env (pre @ Deliver s # post)) (run_main env (pre @ post))"
    by (simp add: r1 r0)
  from p1 have q: "quit (run_main env (pre @ Deliver s # post)) \<noteq> []"
    unfolding r1 by (intro run_quit_kept) simp_all
  have c: "length (quit (run_main env (pre @ Deliver s # post))) \<le> 1"
    unfolding run_main_def by (rule run_quit_capacity) (simp add: main_start_quit)
  have "\<exists>s'. QuitRecv s' \<in> set (trace (run_main env (pre @ Deliver s # post)))"
  proof -
    from live ph obtain s' where "QuitRecv s' \<in> set (trace p)"
      by (cases rule: live_cases) (auto simp: shutdown_calls_def)
    moreover from run_trace [of env "Deliver s # post" p] obtain new where
      "trace (run env (Deliver s # post) p) = trace p @ new" by blast
    ultimately have "QuitRecv s' \<in> set (trace (run env (Deliver s # post) p))" by simp
    then show ?thesis by (auto simp: run_main_append p_def)
  qed
  then obtain s' where "QuitRecv s' \<in> set (trace (run_main env (pre @ Deliver s # post)))" ..
  from QuitRecv_shape [OF this] obtain fin where
    "trace (run_main env (pre @ Deliver s # post)) = init_trace env @ shutdown_calls s' @ fin"
    "shutdown_end fin" by blast
  then have n: "length (received (trace (run_main env (pre @ Deliver s # post)))) = 1"
    by (simp add: received_append received_init_trace received_shutdown_end shutdown_calls_def)
  from a q c n show ?thesis
    unfolding agree_def by blast
qed

theorem second_signal_ignored_witness:
  "phase (run_main (sample_env all_succeed) [Deliver SIGINT]) = Stopping
   \<and> trace (run_main (sample_env all_succeed)
        ([Deliver SIGINT] @ Deliver SIGTERM # [ShutdownReturns None]))
     = trace (run_main (sample_env all_succeed) ([Deliver SIGINT] @ [ShutdownReturns None]))
   \<and> quit (run_main (sample_env all_succeed)
        ([Deliver SIGINT] @ Deliver SIGTERM # [ShutdownReturns None])) \<noteq> []"
proof -
  have ph: "phase (run_main (sample_env all_succeed) [Deliver SIGINT]) = Stopping"
    by (simp add: run_main_def main_start_ok [OF all_ok_sample] alive_def relay_def recv_quit_def
        main_after_quit_def emit_def defer_call_def)
  have s: "SIGTERM = SIGINT \<or> SIGTERM = SIGTERM" by simp
  from second_signal_ignored [OF ph s, of "[ShutdownReturns None]"] ph show ?thesis
    by blast
qed

end
